theory Spec2Isabelle
  imports Complex_Main "HOL-Library.Word"
begin

section \<open>Python values used by \<open>inPython.py\<close>\<close>

text \<open>
  A Python \<open>str\<close> is a sequence of Unicode code points; \<open>len\<close> counts code points.
  A code point is modelled by its number, a string by the list of its code points.
  A Python \<open>float\<close> is an IEEE-754 binary64 value, modelled by its 64-bit pattern
  (sign bit 63, biased exponent bits 62..52, fraction bits 51..0).
\<close>

type_synonym codepoint = nat
type_synonym pystr = "codepoint list"
type_synonym float64 = "64 word"

datatype py_error = ZeroDivisionError | OverflowError

text \<open>A string literal of the source, whose characters are all ASCII.\<close>

definition str :: "string \<Rightarrow> pystr" where
  "str cs = map of_char cs"

subsection \<open>\<open>str.isspace\<close> on one code point\<close>

text \<open>
  The code points for which CPython's \<open>Py_UNICODE_ISSPACE\<close> holds: tab, line feed,
  vertical tab, form feed, carriage return (9..13), the separators 28..31, space (32),
  NEL (133), no-break space (160), U+1680, U+2000..U+200A, U+2028, U+2029, U+202F,
  U+205F and U+3000.
\<close>

definition isspace :: "codepoint \<Rightarrow> bool" where
  "isspace c \<longleftrightarrow>
     (9 \<le> c \<and> c \<le> 13) \<or> (28 \<le> c \<and> c \<le> 32) \<or> c = 133 \<or> c = 160 \<or> c = 5760 \<or>
     (8192 \<le> c \<and> c \<le> 8202) \<or> c = 8232 \<or> c = 8233 \<or> c = 8239 \<or> c = 8287 \<or> c = 12288"

definition nonspace :: "codepoint \<Rightarrow> bool" where
  "nonspace c \<longleftrightarrow> \<not> isspace c"

subsection \<open>\<open>str.split()\<close> without arguments\<close>

text \<open>
  CPython's loop: skip the whitespace; stop at the end of the string; otherwise the
  word runs from the first non-whitespace code point up to the next whitespace (or the
  end), and the scan goes on after it.
\<close>

function split_ws :: "pystr \<Rightarrow> pystr list" where
  "split_ws s =
     (case dropWhile isspace s of
        [] \<Rightarrow> []
      | c # r \<Rightarrow> (c # takeWhile nonspace r) # split_ws (dropWhile nonspace r))"
  by pat_completeness auto
termination
proof (relation "measure length")
  show "wf (measure length)" by simp
next
  fix s :: pystr and c r
  assume "dropWhile isspace s = c # r"
  then have "length (c # r) \<le> length s"
    by (metis length_dropWhile_le)
  moreover have "length (dropWhile nonspace r) \<le> length r"
    by (rule length_dropWhile_le)
  ultimately show "(dropWhile nonspace r, s) \<in> measure length"
    by simp
qed

declare split_ws.simps [simp del]

subsection \<open>True division of two non-negative ints\<close>

text \<open>
  \<open>l / len(split)\<close> divides two ints, both non-negative here (\<open>l\<close> counts up from 0,
  \<open>len\<close> is a length). Python raises \<open>ZeroDivisionError\<close> for a zero divisor, and
  otherwise returns the binary64 value nearest to the exact quotient, ties to even,
  raising \<open>OverflowError\<close> when that value is not finite.
\<close>

fun bit_length :: "nat \<Rightarrow> nat" where
  "bit_length n = (if n = 0 then 0 else Suc (bit_length (n div 2)))"

declare bit_length.simps [simp del]

text \<open>The integer nearest to \<open>n / d\<close>, ties to even.\<close>

definition round_half_even :: "nat \<Rightarrow> nat \<Rightarrow> nat" where
  "round_half_even n d =
     (let q = n div d; r = n mod d
      in if 2 * r < d then q
         else if d < 2 * r then q + 1
         else if even q then q else q + 1)"

text \<open>The integer nearest to \<open>a / b * 2 ^ s\<close>, ties to even.\<close>

definition scaled_round :: "nat \<Rightarrow> nat \<Rightarrow> int \<Rightarrow> nat" where
  "scaled_round a b s =
     (if 0 \<le> s then round_half_even (a * 2 ^ nat s) b
      else round_half_even a (b * 2 ^ nat (- s)))"

text \<open>For positive \<open>a\<close> and \<open>b\<close>, the exponent \<open>e\<close> with \<open>2 ^ e \<le> a / b < 2 ^ (e + 1)\<close>.\<close>

definition binade :: "nat \<Rightarrow> nat \<Rightarrow> int" where
  "binade a b =
     (let d = int (bit_length a) - int (bit_length b)
      in if (if 0 \<le> d then b * 2 ^ nat d \<le> a else b \<le> a * 2 ^ nat (- d))
         then d else d - 1)"

definition true_div :: "nat \<Rightarrow> nat \<Rightarrow> py_error + float64" where
  "true_div a b =
     (if b = 0 then Inl ZeroDivisionError
      else if a = 0 then Inr 0
      else
        let e = binade a b;
            bits = (if - 1022 \<le> e
                    then nat (e + 1022) * 2 ^ 52 + scaled_round a b (52 - e)
                    else scaled_round a b 1074)
        in if 2047 * 2 ^ 52 \<le> bits then Inl OverflowError
           else Inr (word_of_nat bits))"

subsection \<open>Reading a binary64 pattern\<close>

definition float_sign :: "float64 \<Rightarrow> bool" where
  "float_sign w \<longleftrightarrow> 2 ^ 63 \<le> unat w"

definition float_exp :: "float64 \<Rightarrow> nat" where
  "float_exp w = (unat w div 2 ^ 52) mod 2 ^ 11"

definition float_frac :: "float64 \<Rightarrow> nat" where
  "float_frac w = unat w mod 2 ^ 52"

text \<open>Neither an infinity nor a NaN.\<close>

definition is_finite :: "float64 \<Rightarrow> bool" where
  "is_finite w \<longleftrightarrow> float_exp w < 2047"

text \<open>The real number a finite pattern stands for.\<close>

definition valof :: "float64 \<Rightarrow> real" where
  "valof w =
     (if float_sign w then - 1 else 1) *
     (if float_exp w = 0 then real (float_frac w) * 2
      else real (2 ^ 52 + float_frac w) * 2 ^ float_exp w) / 2 ^ 1075"

section \<open>\<open>shortLong\<close>\<close>

text \<open>
  \<^verbatim>\<open>
  def shortLong(string):
      split = string.split()
      split = [i for i in split if (i != "the") & (i != "a")]
      l = 0
      for i in split:
          if len(i) > 8:
              l += 1
      return l / len(split)
  \<close>
\<close>

text \<open>The list comprehension of line 4.\<close>

definition drop_stopwords :: "pystr list \<Rightarrow> pystr list" where
  "drop_stopwords split = [i \<leftarrow> split. (i \<noteq> str ''the'') \<and> (i \<noteq> str ''a'')]"

text \<open>The \<open>for\<close> loop of lines 6 to 8, from the current value of \<open>l\<close>.\<close>

fun count_loop :: "pystr list \<Rightarrow> nat \<Rightarrow> nat" where
  "count_loop [] l = l"
| "count_loop (i # rest) l = count_loop rest (if length i > 8 then l + 1 else l)"

definition shortLong :: "pystr \<Rightarrow> py_error + float64" where
  "shortLong string =
     (let split = split_ws string;
          split = drop_stopwords split;
          l = count_loop split 0
      in true_div l (length split))"

text \<open>The value of \<open>split\<close> after line 4: the qualifying words of the input.\<close>

definition qualifying :: "pystr \<Rightarrow> pystr list" where
  "qualifying string = drop_stopwords (split_ws string)"

subsection \<open>The byte length that \<open>withRust.py\<close> passes on\<close>

text \<open>
  \<open>withRust.py\<close> hands the native function \<open>example.encode()\<close>, the UTF-8 bytes of
  the text. A code point takes one to four bytes.
\<close>

definition utf8_width :: "codepoint \<Rightarrow> nat" where
  "utf8_width c = (if c < 128 then 1 else if c < 2048 then 2 else if c < 65536 then 3 else 4)"

definition byte_length :: "pystr \<Rightarrow> nat" where
  "byte_length s = sum_list (map utf8_width s)"

section \<open>The word ratio as the specification words it\<close>

text \<open>
  The specification splits the text at whitespace, discards the empty tokens, removes
  the words that are in the stopword set, and divides the number \<open>L\<close> of remaining
  words longer than 8 by the number \<open>Q\<close> of remaining words.
\<close>

text \<open>The pieces between consecutive whitespace code points, empty ones included.\<close>

fun tokens :: "pystr \<Rightarrow> pystr list" where
  "tokens [] = [[]]"
| "tokens (c # s) =
     (if isspace c then [] # tokens s
      else (case tokens s of [] \<Rightarrow> [[c]] | t # ts \<Rightarrow> (c # t) # ts))"

definition spec_words :: "pystr \<Rightarrow> pystr list" where
  "spec_words text = [t \<leftarrow> tokens text. t \<noteq> []]"

definition stopwords :: "pystr set" where
  "stopwords = {str ''the'', str ''a''}"

definition spec_qualifying :: "pystr \<Rightarrow> pystr list" where
  "spec_qualifying text = [w \<leftarrow> spec_words text. w \<notin> stopwords]"

definition spec_Q :: "pystr \<Rightarrow> nat" where
  "spec_Q text = length (spec_qualifying text)"

definition spec_L :: "pystr \<Rightarrow> nat" where
  "spec_L text = length [w \<leftarrow> spec_qualifying text. 8 < length w]"

text \<open>The words joined by single spaces: the regular spelling of a text.\<close>

fun join_space :: "pystr list \<Rightarrow> pystr" where
  "join_space [] = []"
| "join_space [w] = w"
| "join_space (w # v # ws) = w @ 32 # join_space (v # ws)"

section \<open>Splitting\<close>

lemma split_ws_Nil: "split_ws [] = []"
  by (simp add: split_ws.simps)

lemma split_ws_space: "isspace c \<Longrightarrow> split_ws (c # s) = split_ws s"
  by (simp add: split_ws.simps [of "c # s"] split_ws.simps [of s])

lemma split_ws_nonspace:
  "\<not> isspace c \<Longrightarrow>
   split_ws (c # s) = (c # takeWhile nonspace s) # split_ws (dropWhile nonspace s)"
  by (simp add: split_ws.simps [of "c # s"])

lemma split_ws_append_space:
  "isspace c \<Longrightarrow> split_ws (a @ c # b) = split_ws a @ split_ws b"
proof (induction a rule: length_induct)
  case (1 a)
  show ?case
  proof (cases a)
    case Nil
    with 1 show ?thesis by (simp add: split_ws_space split_ws_Nil)
  next
    case (Cons x r)
    show ?thesis
    proof (cases "isspace x")
      case True
      with 1 Cons show ?thesis by (simp add: split_ws_space)
    next
      case False
      have nc: "\<not> nonspace c" using 1(2) by (simp add: nonspace_def)
      have t: "takeWhile nonspace (r @ c # b) = takeWhile nonspace r"
        using nc by (simp add: takeWhile_tail)
      have d: "dropWhile nonspace (r @ c # b) = dropWhile nonspace r @ c # b"
        using nc by (induction r) simp_all
      have "length (dropWhile nonspace r) < length a"
        using Cons length_dropWhile_le [of nonspace r] by simp
      with 1 have "split_ws (dropWhile nonspace r @ c # b) = split_ws (dropWhile nonspace r) @ split_ws b"
        by blast
      with False Cons t d show ?thesis
        by (simp add: split_ws_nonspace)
    qed
  qed
qed

lemma split_ws_all_space: "list_all isspace w \<Longrightarrow> split_ws w = []"
  by (induction w) (simp_all add: split_ws_Nil split_ws_space)

lemma split_ws_lead: "list_all isspace w \<Longrightarrow> split_ws (w @ s) = split_ws s"
  by (induction w) (simp_all add: split_ws_space)

lemma split_ws_trail: "list_all isspace w \<Longrightarrow> split_ws (s @ w) = split_ws s"
proof (induction w arbitrary: s)
  case Nil
  then show ?case by simp
next
  case (Cons c w)
  then show ?case
    by (simp add: split_ws_append_space split_ws_all_space)
qed

lemma count_loop_filter: "count_loop ws l = l + length (filter (\<lambda>i. length i > 8) ws)"
  by (induction ws arbitrary: l) simp_all

section \<open>Division\<close>

lemma bit_length_upper: "n < 2 ^ bit_length n"
proof (induction n rule: bit_length.induct)
  case (1 n)
  show ?case
  proof (cases "n = 0")
    case True
    then show ?thesis by (simp add: bit_length.simps)
  next
    case False
    with 1 have "n div 2 < 2 ^ bit_length (n div 2)" by simp
    then have "n < 2 * 2 ^ bit_length (n div 2)" by linarith
    with False show ?thesis by (simp add: bit_length.simps [of n])
  qed
qed

lemma bit_length_lower: "0 < n \<Longrightarrow> 2 ^ bit_length n \<le> 2 * n"
proof (induction n rule: bit_length.induct)
  case (1 n)
  show ?case
  proof (cases "n div 2 = 0")
    case True
    with 1(2) have "n = 1" by presburger
    then show ?thesis by (simp add: bit_length.simps [of "Suc 0"] bit_length.simps [of 0])
  next
    case False
    with 1 have "2 ^ bit_length (n div 2) \<le> 2 * (n div 2)" by simp
    then have "2 * 2 ^ bit_length (n div 2) \<le> 2 * n" by linarith
    with 1(2) show ?thesis by (simp add: bit_length.simps [of n])
  qed
qed

lemma bit_length_mono: "a \<le> b \<Longrightarrow> bit_length a \<le> bit_length b"
proof (induction a arbitrary: b rule: bit_length.induct)
  case (1 n)
  show ?case
  proof (cases "n = 0")
    case True
    then show ?thesis by (simp add: bit_length.simps [of 0])
  next
    case False
    with 1(2) have b: "b \<noteq> 0" by simp
    from 1(2) have "n div 2 \<le> b div 2" by (rule div_le_mono)
    with 1(1) False have "bit_length (n div 2) \<le> bit_length (b div 2)" by simp
    with False b show ?thesis
      by (simp add: bit_length.simps [of n] bit_length.simps [of b])
  qed
qed

lemma binade_le_one:
  assumes "0 < a" "a \<le> b"
  shows "binade a b \<le> 0"
    and "binade a b = 0 \<Longrightarrow> a = b"
    and "a * 2 ^ nat (- binade a b) < 2 * b"
proof -
  define d where "d = int (bit_length a) - int (bit_length b)"
  have d0: "d \<le> 0"
    using bit_length_mono [OF assms(2)] by (simp add: d_def)
  have up: "a * 2 ^ nat (- d) < 2 * b"
  proof -
    have "nat (- d) = bit_length b - bit_length a"
      by (simp add: d_def)
    moreover have "bit_length a \<le> bit_length b"
      using bit_length_mono [OF assms(2)] .
    ultimately have "2 ^ bit_length a * (2::nat) ^ nat (- d) = 2 ^ bit_length b"
      by (simp flip: power_add)
    moreover have "a * 2 ^ nat (- d) < 2 ^ bit_length a * 2 ^ nat (- d)"
      using bit_length_upper [of a] by simp
    moreover have "2 ^ bit_length b \<le> 2 * b"
      using assms by (intro bit_length_lower) simp
    ultimately show ?thesis by linarith
  qed
  show "binade a b \<le> 0"
    using d0 by (simp add: binade_def d_def [symmetric] Let_def)
  show "binade a b = 0 \<Longrightarrow> a = b"
    using d0 assms(2) by (simp add: binade_def d_def [symmetric] Let_def split: if_splits)
  show "a * 2 ^ nat (- binade a b) < 2 * b"
  proof (cases "if 0 \<le> d then b * 2 ^ nat d \<le> a else b \<le> a * 2 ^ nat (- d)")
    case True
    then have "binade a b = d"
      by (simp add: binade_def d_def [symmetric] Let_def)
    with up show ?thesis by simp
  next
    case False
    then have e: "binade a b = d - 1"
      by (simp add: binade_def d_def [symmetric] Let_def)
    have "nat (- (d - 1)) = Suc (nat (- d))"
      using d0 by simp
    moreover have "a * 2 ^ nat (- d) < b"
      using False d0 by (cases "d = 0") (simp_all split: if_splits)
    ultimately show ?thesis using e by simp
  qed
qed

lemma round_half_even_le: "0 < d \<Longrightarrow> n \<le> k * d \<Longrightarrow> round_half_even n d \<le> k"
proof -
  assume d: "0 < d" and n: "n \<le> k * d"
  have q: "n div d \<le> k"
    using n d by (metis div_le_mono nonzero_mult_div_cancel_right less_numeral_extra(3))
  show ?thesis
  proof (cases "n div d = k")
    case True
    have "n = (n div d) * d + n mod d" by simp
    with True n have "n mod d = 0" by (metis add_diff_cancel_left' diff_is_0_eq')
    with True d show ?thesis by (simp add: round_half_even_def Let_def)
  next
    case False
    with q have "n div d < k" by simp
    then show ?thesis by (simp add: round_half_even_def Let_def)
  qed
qed

lemma round_half_even_exact: "0 < d \<Longrightarrow> round_half_even (k * d) d = k"
  by (simp add: round_half_even_def Let_def)

lemma scaled_round_le:
  assumes b: "0 < b" and s: "0 \<le> s" and le: "a * 2 ^ nat s \<le> k * b"
  shows "scaled_round a b s \<le> k"
  using round_half_even_le [OF b le] s by (simp add: scaled_round_def)

lemma below_binade:
  assumes up: "a * 2 ^ m < 2 * b" and k: "Suc k \<le> m"
  shows "a * 2 ^ (k + j) \<le> 2 ^ j * (b::nat)"
proof -
  have "(2::nat) ^ Suc k \<le> 2 ^ m"
    using k by (intro power_increasing) simp_all
  then have "a * 2 ^ Suc k \<le> a * 2 ^ m"
    by (rule mult_le_mono2)
  then have "a * 2 ^ Suc k < 2 * b"
    using up by (rule le_less_trans)
  then have "a * 2 ^ k < b" by simp
  then have "(a * 2 ^ k) * 2 ^ j \<le> b * 2 ^ j"
    by (intro mult_le_mono1) simp
  then show ?thesis
    by (simp add: power_add mult.commute mult.left_commute)
qed

lemma true_div_bits_le_one:
  assumes a: "0 < a" and ab: "a \<le> b"
  shows "(if - 1022 \<le> binade a b
          then nat (binade a b + 1022) * 2 ^ 52 + scaled_round a b (52 - binade a b)
          else scaled_round a b 1074) \<le> 1023 * 2 ^ 52"
proof -
  define e where "e = binade a b"
  have b: "0 < b" using a ab by simp
  have e0: "e \<le> 0" and eq: "e = 0 \<Longrightarrow> a = b" and up: "a * 2 ^ nat (- e) < 2 * b"
    using binade_le_one [OF a ab] by (simp_all add: e_def)
  show ?thesis
    unfolding e_def [symmetric]
  proof (cases "- 1022 \<le> e")
    case norm: True
    show "(if - 1022 \<le> e then nat (e + 1022) * 2 ^ 52 + scaled_round a b (52 - e)
           else scaled_round a b 1074) \<le> 1023 * 2 ^ 52"
    proof (cases "e = 0")
      case True
      with eq have "a = b" by simp
      then have "scaled_round a b 52 = 2 ^ 52"
        using b round_half_even_exact [of b "2 ^ 52"]
        by (simp add: scaled_round_def mult.commute)
      with True show ?thesis by simp
    next
      case False
      with e0 have e1: "e \<le> - 1" by simp
      have n: "nat (52 - e) = nat (- e) + 52"
        using e0 by simp
      have "a * 2 ^ nat (52 - e) = (a * 2 ^ nat (- e)) * 2 ^ 52"
        unfolding n by (simp add: power_add)
      also have "\<dots> \<le> (2 * b) * 2 ^ 52"
        using up by simp
      finally have "a * 2 ^ nat (52 - e) \<le> 2 ^ 53 * b"
        by simp
      then have m: "scaled_round a b (52 - e) \<le> 2 ^ 53"
        using e0 by (intro scaled_round_le [OF b]) simp_all
      have "nat (e + 1022) \<le> 1021"
        using e1 by simp
      then have "nat (e + 1022) * (2::nat) ^ 52 \<le> 1021 * 2 ^ 52"
        by (rule mult_le_mono1)
      with m norm show ?thesis by simp
    qed
  next
    case sub: False
    then have "Suc 1022 \<le> nat (- e)" by simp
    from below_binade [OF up this, of 52]
    have "a * 2 ^ nat 1074 \<le> 2 ^ 52 * b" by simp
    then have "scaled_round a b 1074 \<le> 2 ^ 52"
      by (intro scaled_round_le [OF b]) simp_all
    with sub show "(if - 1022 \<le> e then nat (e + 1022) * 2 ^ 52 + scaled_round a b (52 - e)
           else scaled_round a b 1074) \<le> 1023 * 2 ^ 52"
      by simp
  qed
qed

lemma true_div_le_one:
  assumes b: "0 < b" and ab: "a \<le> b"
  shows "\<exists>w. true_div a b = Inr w \<and> unat w \<le> 1023 * 2 ^ 52"
proof (cases "a = 0")
  case True
  with b show ?thesis by (simp add: true_div_def)
next
  case False
  define bits where "bits = (if - 1022 \<le> binade a b
          then nat (binade a b + 1022) * 2 ^ 52 + scaled_round a b (52 - binade a b)
          else scaled_round a b 1074)"
  have le: "bits \<le> 1023 * 2 ^ 52"
    unfolding bits_def using False ab by (intro true_div_bits_le_one) simp_all
  then have "unat (word_of_nat bits :: float64) = bits"
    by (simp add: unat_of_nat)
  moreover have "true_div a b = Inr (word_of_nat bits)"
    using False b le by (simp add: true_div_def Let_def bits_def [symmetric])
  ultimately show ?thesis using le by simp
qed

lemma valof_le_one:
  assumes "unat w \<le> 1023 * 2 ^ 52"
  shows "is_finite w" and "0 \<le> valof w" and "valof w \<le> 1"
proof -
  define n where "n = unat w"
  define ex where "ex = n div 2 ^ 52"
  define fr where "fr = n mod 2 ^ 52"
  have n: "n \<le> 1023 * 2 ^ 52" using assms by (simp add: n_def)
  have ex: "ex \<le> 1023"
    unfolding ex_def using n by (simp add: div_le_mono [of n "1023 * 2 ^ 52" "2 ^ 52", simplified])
  have fexp: "float_exp w = ex"
    using ex unfolding float_exp_def n_def [symmetric] ex_def [symmetric] by simp
  have ffrac: "float_frac w = fr"
    unfolding float_frac_def n_def fr_def by (rule refl)
  have sgn: "\<not> float_sign w"
    using n by (simp add: float_sign_def n_def [symmetric])
  have fr: "fr < 2 ^ 52" by (simp add: fr_def)
  show "is_finite w" using ex by (simp add: is_finite_def fexp)
  have v: "valof w = (if ex = 0 then real fr * 2 else real (2 ^ 52 + fr) * 2 ^ ex) / 2 ^ 1075"
    using sgn by (simp add: valof_def fexp ffrac)
  show "0 \<le> valof w" unfolding v by simp
  have "(if ex = 0 then real fr * 2 else real (2 ^ 52 + fr) * 2 ^ ex) \<le> 2 ^ 1075"
  proof (cases "ex = 0")
    case True
    have "real fr * 2 \<le> 2 ^ 52 * 2" using fr by simp
    also have "\<dots> = (2::real) ^ 53" by simp
    also have "\<dots> \<le> 2 ^ 1075" by (intro power_increasing) simp_all
    finally show ?thesis using True by simp
  next
    case nz: False
    show ?thesis
    proof (cases "ex = 1023")
      case True
      have "n = ex * 2 ^ 52 + fr" by (simp add: ex_def fr_def)
      with True n have "fr = 0" by simp
      moreover have "(2::real) ^ 52 * 2 ^ 1023 = 2 ^ 1075" by (simp flip: power_add)
      ultimately show ?thesis using True by simp
    next
      case False
      with ex have "ex \<le> 1022" by simp
      then have "(2::real) ^ ex \<le> 2 ^ 1022" by (intro power_increasing) simp_all
      moreover have "real (2 ^ 52 + fr) \<le> 2 ^ 53" using fr by simp
      ultimately have "real (2 ^ 52 + fr) * 2 ^ ex \<le> 2 ^ 53 * 2 ^ 1022"
        by (intro mult_mono) simp_all
      also have "\<dots> = (2::real) ^ 1075" by (simp flip: power_add)
      finally show ?thesis using nz by simp
    qed
  qed
  then show "valof w \<le> 1" unfolding v by simp
qed

subsection \<open>The float returned is the nearest one\<close>

lemma round_half_even_ge: "0 < d \<Longrightarrow> k * d \<le> n \<Longrightarrow> k \<le> round_half_even n d"
proof -
  assume d: "0 < d" and n: "k * d \<le> n"
  have "k \<le> n div d"
    using n d by (metis div_le_mono nonzero_mult_div_cancel_right less_numeral_extra(3))
  then show ?thesis by (simp add: round_half_even_def Let_def)
qed

lemma round_half_even_near:
  assumes d: "0 < d"
  shows "\<bar>real (round_half_even n d) - real n / real d\<bar> \<le> 1 / 2"
proof -
  define q where "q = n div d"
  define r where "r = n mod d"
  have n: "real n = real q * real d + real r"
    unfolding q_def r_def by (metis of_nat_add of_nat_mult div_mult_mod_eq)
  have rd: "r < d" unfolding r_def using d by simp
  have quot: "real n / real d = real q + real r / real d"
    using d by (simp add: n add_divide_distrib)
  have rhe: "round_half_even n d =
      (if 2 * r < d then q else if d < 2 * r then q + 1 else if even q then q else q + 1)"
    by (simp add: round_half_even_def Let_def q_def r_def)
  consider "2 * r < d" | "d < 2 * r" | "2 * r = d" by linarith
  then show ?thesis
  proof cases
    case 1
    then have "real r / real d \<le> 1 / 2"
      using d by (simp add: field_simps)
    with 1 show ?thesis by (simp add: rhe quot)
  next
    case 2
    then have "1 / 2 \<le> real r / real d" "real r / real d \<le> 1"
      using d rd by (simp_all add: field_simps)
    with 2 show ?thesis by (simp add: rhe quot abs_if)
  next
    case 3
    then have "real r / real d = 1 / 2"
      using d by (simp add: field_simps)
    with 3 show ?thesis by (simp add: rhe quot abs_if)
  qed
qed

lemma binade_lower:
  assumes a: "0 < a" and ab: "a \<le> b"
  shows "b \<le> a * 2 ^ nat (- binade a b)"
proof -
  define d where "d = int (bit_length a) - int (bit_length b)"
  have d0: "d \<le> 0"
    using bit_length_mono [OF ab] by (simp add: d_def)
  show ?thesis
  proof (cases "if 0 \<le> d then b * 2 ^ nat d \<le> a else b \<le> a * 2 ^ nat (- d)")
    case True
    then have "binade a b = d"
      by (simp add: binade_def d_def [symmetric] Let_def)
    with True d0 show ?thesis
      by (cases "d = 0") (simp_all split: if_splits)
  next
    case False
    then have e: "binade a b = d - 1"
      by (simp add: binade_def d_def [symmetric] Let_def)
    have n: "nat (- (d - 1)) = Suc (nat (- d))"
      using d0 by simp
    have le: "bit_length a \<le> bit_length b"
      using bit_length_mono [OF ab] .
    have "nat (- d) = bit_length b - bit_length a"
      by (simp add: d_def)
    with le have p: "2 ^ bit_length a * (2::nat) ^ nat (- d) = 2 ^ bit_length b"
      by (simp flip: power_add)
    have "b < 2 ^ bit_length b"
      by (rule bit_length_upper)
    also have "\<dots> = 2 ^ bit_length a * 2 ^ nat (- d)"
      using p by simp
    also have "\<dots> \<le> (2 * a) * 2 ^ nat (- d)"
      using bit_length_lower [OF a] by (rule mult_le_mono1)
    finally show ?thesis
      unfolding e n by simp
  qed
qed

text \<open>Reading the pattern that packs exponent field \<open>k - 1\<close> and significand \<open>m\<close>.\<close>

lemma valof_pack:
  assumes k: "1 \<le> k" "k \<le> 1023"
    and m: "m \<le> 2 ^ 53" "k = 1 \<or> 2 ^ 52 \<le> m"
    and x: "unat x = (k - 1) * 2 ^ 52 + m"
  shows "valof x = real m * 2 ^ k / 2 ^ 1075"
proof -
  have small: "unat x < 2 ^ 63"
  proof -
    have "(k - 1) * (2::nat) ^ 52 \<le> 1022 * 2 ^ 52"
      using k by (intro mult_le_mono1) simp
    with m(1) x show ?thesis by simp
  qed
  then have sgn: "\<not> float_sign x"
    by (simp add: float_sign_def)
  show ?thesis
  proof (cases "m < 2 ^ 52")
    case True
    with m(2) have k1: "k = 1" by simp
    with x have xm: "unat x = m" by simp
    have "float_exp x = 0" "float_frac x = m"
      using True unfolding float_exp_def float_frac_def xm by simp_all
    with sgn k1 show ?thesis by (simp add: valof_def)
  next
    case ge: False
    show ?thesis
    proof (cases "m = 2 ^ 53")
      case True
      have "unat x = (k - 1) * 2 ^ 52 + 2 * 2 ^ 52"
        unfolding x True by simp
      also have "\<dots> = (k + 1) * 2 ^ 52"
        using k(1) by (simp add: algebra_simps)
      finally have xk: "unat x = (k + 1) * 2 ^ 52" .
      have "unat x div 2 ^ 52 = k + 1" "unat x mod 2 ^ 52 = 0"
        unfolding xk by simp_all
      then have "float_exp x = k + 1" "float_frac x = 0"
        using k(2) unfolding float_exp_def float_frac_def by simp_all
      with sgn True show ?thesis by (simp add: valof_def)
    next
      case False
      with m(1) have lt: "m < 2 ^ 53" by simp
      define f where "f = m - 2 ^ 52"
      have f: "f < 2 ^ 52" and mf: "m = 2 ^ 52 + f"
        using ge lt by (simp_all add: f_def)
      have "unat x = (k - 1) * 2 ^ 52 + 2 ^ 52 + f"
        unfolding x mf by simp
      also have "\<dots> = k * 2 ^ 52 + f"
        using k(1) by (simp add: algebra_simps)
      finally have xk: "unat x = k * 2 ^ 52 + f" .
      have "unat x div 2 ^ 52 = k" "unat x mod 2 ^ 52 = f"
        unfolding xk using f by simp_all
      then have "float_exp x = k" "float_frac x = f"
        using k(2) unfolding float_exp_def float_frac_def by simp_all
      with sgn k(1) mf show ?thesis by (simp add: valof_def)
    qed
  qed
qed


lemma true_div_nearest:
  assumes b: "0 < b" and ab: "a \<le> b"
  shows "\<exists>x. true_div a b = Inr x \<and>
           \<bar>valof x - real a / real b\<bar> \<le> max (real a / real b / 2 ^ 53) (1 / 2 ^ 1075)"
proof (cases "a = 0")
  case True
  have "valof 0 = 0"
    by (simp add: valof_def float_exp_def float_frac_def)
  with True b show ?thesis by (simp add: true_div_def)
next
  case False
  then have a: "0 < a" by simp
  define e where "e = binade a b"
  define k where "k = (if - 1022 \<le> e then nat (e + 1023) else 1)"
  define s where "s = 1075 - k"
  define N where "N = a * 2 ^ s"
  define m where "m = round_half_even N b"
  define P where "P = (2::real) ^ 1075"
  have e0: "e \<le> 0" and up: "a * 2 ^ nat (- e) < 2 * b"
    using binade_le_one [OF a ab] by (simp_all add: e_def)
  have lo: "b \<le> a * 2 ^ nat (- e)"
    using binade_lower [OF a ab] by (simp add: e_def)
  have k: "1 \<le> k" "k \<le> 1023"
    using e0 unfolding k_def by (simp_all, linarith+)
  have sk: "s + k = 1075"
    using k by (simp add: s_def)
  have P: "P = 2 ^ s * 2 ^ k"
    unfolding P_def by (simp flip: power_add add: sk)
  have Ppos: "0 < P" by (simp add: P_def)
  define bits where "bits = (if - 1022 \<le> e
          then nat (e + 1022) * 2 ^ 52 + scaled_round a b (52 - e)
          else scaled_round a b 1074)"
  have bits: "bits = (k - 1) * 2 ^ 52 + m"
  proof (cases "- 1022 \<le> e")
    case True
    then have "nat (e + 1022) = k - 1" "nat (52 - e) = s" "0 \<le> 52 - e"
      using e0 by (simp_all add: k_def s_def)
    with True show ?thesis
      by (simp add: bits_def scaled_round_def m_def N_def)
  next
    case False
    then have "k = 1" "s = 1074"
      by (simp_all add: k_def s_def)
    with False show ?thesis
      by (simp add: bits_def scaled_round_def m_def N_def)
  qed
  have le: "bits \<le> 1023 * 2 ^ 52"
    unfolding bits_def e_def using a ab by (rule true_div_bits_le_one)
  obtain x :: float64 where x: "x = word_of_nat bits" by simp
  have ux: "unat x = bits"
    using le by (simp add: x unat_of_nat)
  have td: "true_div a b = Inr x"
    using False b le by (simp add: true_div_def Let_def e_def [symmetric] bits_def [symmetric] x)
  have m_up: "m \<le> 2 ^ 53"
  proof (cases "- 1022 \<le> e")
    case True
    then have "s = nat (- e) + 52"
      using e0 by (simp add: k_def s_def)
    then have "N = (a * 2 ^ nat (- e)) * 2 ^ 52"
      by (simp add: N_def power_add)
    also have "\<dots> \<le> (2 * b) * 2 ^ 52"
      using up by simp
    finally have "N \<le> 2 ^ 53 * b" by simp
    then show ?thesis
      unfolding m_def using b by (intro round_half_even_le) simp_all
  next
    case False
    then have "Suc 1022 \<le> nat (- e)" "s = 1022 + 52"
      by (simp_all add: k_def s_def)
    with below_binade [OF up this(1), of 52] have "N \<le> 2 ^ 52 * b"
      by (simp add: N_def)
    then have "m \<le> 2 ^ 52"
      unfolding m_def using b by (intro round_half_even_le) simp_all
    then show ?thesis by simp
  qed
  have m_lo: "k = 1 \<or> 2 ^ 52 \<le> m"
  proof (cases "- 1022 \<le> e")
    case True
    then have "s = nat (- e) + 52"
      using e0 by (simp add: k_def s_def)
    then have "N = (a * 2 ^ nat (- e)) * 2 ^ 52"
      by (simp add: N_def power_add)
    moreover have "b * 2 ^ 52 \<le> (a * 2 ^ nat (- e)) * 2 ^ 52"
      using lo by (rule mult_le_mono1)
    ultimately have "2 ^ 52 * b \<le> N"
      by (simp add: mult.commute)
    then have "2 ^ 52 \<le> m"
      unfolding m_def using b by (intro round_half_even_ge) simp_all
    then show ?thesis ..
  next
    case False
    then show ?thesis by (simp add: k_def)
  qed
  have v: "valof x = real m * 2 ^ k / P"
    unfolding P_def using k m_up m_lo by (rule valof_pack) (simp add: ux bits)
  have q: "real a / real b = (real N / real b) * 2 ^ k / P"
    using b by (simp add: P N_def)
  have "valof x - real a / real b = (real m - real N / real b) * (2 ^ k / P)"
    unfolding v q by (simp add: algebra_simps diff_divide_distrib)
  then have "\<bar>valof x - real a / real b\<bar> = \<bar>real m - real N / real b\<bar> * (2 ^ k / P)"
    using Ppos by (simp add: abs_mult)
  also have "\<dots> \<le> (1 / 2) * (2 ^ k / P)"
    using round_half_even_near [OF b, of N] Ppos
    by (intro mult_right_mono) (simp_all add: m_def)
  finally have err: "\<bar>valof x - real a / real b\<bar> \<le> (1 / 2) * (2 ^ k / P)" .
  have "(1 / 2) * (2 ^ k / P) \<le> max (real a / real b / 2 ^ 53) (1 / 2 ^ 1075)"
  proof (cases "- 1022 \<le> e")
    case True
    then have nk: "nat (- e) + k = 1023"
      using e0 by (simp add: k_def)
    have "real b \<le> real (a * 2 ^ nat (- e))"
      using lo by (rule of_nat_mono)
    then have "real b * 2 ^ k \<le> real (a * 2 ^ nat (- e)) * 2 ^ k"
      by (rule mult_right_mono) simp
    also have "\<dots> = real a * 2 ^ (nat (- e) + k)"
      by (simp add: power_add)
    finally have "real b * 2 ^ k \<le> real a * 2 ^ 1023"
      unfolding nk .
    then have "2 ^ k / 2 ^ 1023 \<le> real a / real b"
      using b by (simp add: field_simps)
    then have "2 ^ k / 2 ^ 1023 / 2 ^ 53 \<le> real a / real b / 2 ^ 53"
      by (rule divide_right_mono) simp
    moreover have "(1 / 2) * (2 ^ k / P) = 2 ^ k / 2 ^ 1023 / 2 ^ 53"
      by (simp add: P_def)
    ultimately show ?thesis by simp
  next
    case False
    then have "k = 1" by (simp add: k_def)
    then have "(1 / 2) * (2 ^ k / P) = 1 / 2 ^ 1075"
      by (simp add: P_def)
    then show ?thesis by simp
  qed
  with err have "\<bar>valof x - real a / real b\<bar> \<le> max (real a / real b / 2 ^ 53) (1 / 2 ^ 1075)"
    by (rule order_trans)
  with td show ?thesis by blast
qed

section \<open>The loop and the result\<close>

lemma shortLong_eq:
  "shortLong s = true_div (length [w \<leftarrow> qualifying s. 8 < length w]) (length (qualifying s))"
  by (simp add: shortLong_def qualifying_def Let_def count_loop_filter)

lemma shortLong_returns:
  assumes "qualifying s \<noteq> []"
  shows "\<exists>x. shortLong s = Inr x \<and> unat x \<le> 1023 * 2 ^ 52"
proof -
  have "0 < length (qualifying s)" using assms by simp
  moreover have "length [w \<leftarrow> qualifying s. 8 < length w] \<le> length (qualifying s)"
    by (rule length_filter_le)
  ultimately show ?thesis
    unfolding shortLong_eq by (rule true_div_le_one)
qed


section \<open>The specification's words are the words of \<open>split\<close>\<close>

lemma tokens_run:
  "tokens s = takeWhile nonspace s # (case dropWhile nonspace s of [] \<Rightarrow> [] | x # r \<Rightarrow> tokens r)"
  by (induction s) (simp_all add: nonspace_def)

lemma spec_words_space: "isspace c \<Longrightarrow> spec_words (c # s) = spec_words s"
  by (simp add: spec_words_def)

lemma spec_words_dropWhile: "spec_words (dropWhile isspace s) = spec_words s"
  by (induction s) (simp_all add: spec_words_space)

lemma spec_words_split_ws: "spec_words s = split_ws s"
proof (induction s rule: split_ws.induct)
  case (1 s)
  show ?case
  proof (cases "dropWhile isspace s")
    case Nil
    have "spec_words s = spec_words (dropWhile isspace s)"
      by (simp only: spec_words_dropWhile)
    also have "\<dots> = []"
      unfolding Nil by (simp add: spec_words_def)
    also have "[] = split_ws s"
      using Nil by (simp add: split_ws.simps [of s] del: dropWhile_eq_Nil_conv)
    finally show ?thesis .
  next
    case (Cons c r)
    then have c: "\<not> isspace c"
      by (metis hd_dropWhile list.sel(1) list.distinct(1))
    have ih: "spec_words (dropWhile nonspace r) = split_ws (dropWhile nonspace r)"
      using 1 Cons by simp
    have rest: "[t \<leftarrow> (case dropWhile nonspace r of [] \<Rightarrow> [] | x # r' \<Rightarrow> tokens r'). t \<noteq> []]
                = split_ws (dropWhile nonspace r)"
    proof (cases "dropWhile nonspace r")
      case Nil
      show ?thesis unfolding Nil by (simp add: split_ws_Nil)
    next
      case (Cons x r')
      then have "\<not> nonspace x"
        by (metis hd_dropWhile list.sel(1) list.distinct(1))
      then have x: "isspace x" by (simp add: nonspace_def)
      have "spec_words (x # r') = split_ws (x # r')"
        using ih Cons by simp
      with x Cons show ?thesis
        by (simp add: spec_words_space split_ws_space) (simp add: spec_words_def)
    qed
    have "spec_words (c # r) = (c # takeWhile nonspace r) # split_ws (dropWhile nonspace r)"
      using c rest by (simp add: spec_words_def tokens_run [of r])
    then have "spec_words (dropWhile isspace s) = split_ws s"
      using Cons by (simp add: split_ws.simps [of s])
    then show ?thesis by (simp add: spec_words_dropWhile)
  qed
qed

lemma spec_qualifying_eq: "spec_qualifying s = qualifying s"
  by (simp add: spec_qualifying_def qualifying_def drop_stopwords_def stopwords_def
      spec_words_split_ws)

section \<open>Words and single spaces\<close>

lemma split_ws_word: "w \<noteq> [] \<Longrightarrow> list_all nonspace w \<Longrightarrow> split_ws w = [w]"
proof (cases w)
  case Nil
  assume "w \<noteq> []"
  with Nil show ?thesis by simp
next
  case (Cons c r)
  assume "list_all nonspace w"
  with Cons have c: "\<not> isspace c" and r: "list_all nonspace r"
    by (simp_all add: nonspace_def)
  from r have tw: "takeWhile nonspace r = r" and dw: "dropWhile nonspace r = []"
    by (simp_all add: list_all_iff)
  have "split_ws (c # r) = (c # takeWhile nonspace r) # split_ws (dropWhile nonspace r)"
    using c by (rule split_ws_nonspace)
  also have "\<dots> = [c # r]"
    unfolding tw dw by (simp add: split_ws_Nil)
  finally show ?thesis using Cons by simp
qed

lemma split_ws_words: "list_all (\<lambda>w. w \<noteq> [] \<and> list_all nonspace w) (split_ws s)"
proof (induction s rule: split_ws.induct)
  case (1 s)
  show ?case
  proof (cases "dropWhile isspace s")
    case Nil
    then show ?thesis
      by (simp add: split_ws.simps [of s] del: dropWhile_eq_Nil_conv)
  next
    case (Cons c r)
    then have "\<not> isspace c"
      by (metis hd_dropWhile list.sel(1) list.distinct(1))
    then have "nonspace c"
      by (simp add: nonspace_def)
    moreover have "list_all nonspace (takeWhile nonspace r)"
      by (simp add: list_all_iff) (metis set_takeWhileD)
    moreover have "list_all (\<lambda>w. w \<noteq> [] \<and> list_all nonspace w) (split_ws (dropWhile nonspace r))"
      using 1 Cons by simp
    ultimately show ?thesis
      using Cons by (simp add: split_ws.simps [of s])
  qed
qed

lemma split_ws_join_space:
  "list_all (\<lambda>w. w \<noteq> [] \<and> list_all nonspace w) ws \<Longrightarrow> split_ws (join_space ws) = ws"
proof (induction ws rule: join_space.induct)
  case 1
  then show ?case by (simp add: split_ws_Nil)
next
  case (2 w)
  then show ?case by (simp add: split_ws_word)
next
  case (3 w v ws)
  have "isspace 32" by (simp add: isspace_def)
  then have "split_ws (w @ 32 # join_space (v # ws)) = split_ws w @ split_ws (join_space (v # ws))"
    by (rule split_ws_append_space)
  with 3 show ?case by (simp add: split_ws_word)
qed

lemma split_ws_normal: "split_ws (join_space (split_ws s)) = split_ws s"
  using split_ws_words by (rule split_ws_join_space)

lemmas split_eval = split_ws_Nil split_ws_space split_ws_nonspace isspace_def nonspace_def str_def
lemmas div_eval = true_div_def binade_def scaled_round_def round_half_even_def bit_length.simps Let_def
lemmas shortLong_eval = shortLong_def qualifying_def drop_stopwords_def split_eval div_eval

lemma shortLong_split_ws: "split_ws s = split_ws t \<Longrightarrow> shortLong s = shortLong t"
  by (simp add: shortLong_def)

section \<open>The claims\<close>

text \<open>
  C1. Whenever the number \<open>Q\<close> of qualifying words, as the specification counts them,
  is positive, \<open>shortLong\<close> returns a float, and it is the float that Python's true
  division yields for \<open>L / Q\<close>, with \<open>L\<close> the number of qualifying words longer than 8:
  the binary64 value nearest to the quotient, within half a unit in the last place.
\<close>

theorem shortLong_spec_ratio:
  "0 < spec_Q text \<Longrightarrow>
   shortLong text = true_div (spec_L text) (spec_Q text) \<and>
   (\<exists>x. shortLong text = Inr x \<and>
        \<bar>valof x - real (spec_L text) / real (spec_Q text)\<bar>
          \<le> max (real (spec_L text) / real (spec_Q text) / 2 ^ 53) (1 / 2 ^ 1075))"
proof -
  assume q: "0 < spec_Q text"
  have "spec_L text \<le> spec_Q text"
    unfolding spec_L_def spec_Q_def by (rule length_filter_le)
  with q have "\<exists>x. true_div (spec_L text) (spec_Q text) = Inr x \<and>
        \<bar>valof x - real (spec_L text) / real (spec_Q text)\<bar>
          \<le> max (real (spec_L text) / real (spec_Q text) / 2 ^ 53) (1 / 2 ^ 1075)"
    by (rule true_div_nearest)
  moreover have "shortLong text = true_div (spec_L text) (spec_Q text)"
    by (simp add: shortLong_eq spec_L_def spec_Q_def spec_qualifying_eq)
  ultimately show ?thesis by simp
qed

theorem shortLong_spec_ratio_witness:
  "0 < spec_Q (str ''internationalization a localization'') \<and>
   (shortLong (str ''internationalization a localization'')
      = true_div (spec_L (str ''internationalization a localization''))
                 (spec_Q (str ''internationalization a localization'')) \<and>
    (\<exists>x. shortLong (str ''internationalization a localization'') = Inr x \<and>
         \<bar>valof x - real (spec_L (str ''internationalization a localization''))
                      / real (spec_Q (str ''internationalization a localization''))\<bar>
           \<le> max (real (spec_L (str ''internationalization a localization''))
                      / real (spec_Q (str ''internationalization a localization'')) / 2 ^ 53)
                  (1 / 2 ^ 1075)))"
proof -
  have h: "0 < spec_Q (str ''internationalization a localization'')"
    by (simp add: spec_Q_def spec_qualifying_eq qualifying_def drop_stopwords_def split_eval)
  show ?thesis
    using h shortLong_spec_ratio [OF h] by (rule conjI)
qed

text \<open>
  C2. Whenever there is at least one qualifying word, \<open>shortLong\<close> returns a finite
  float whose value lies between 0 and 1, both included.
\<close>

theorem shortLong_unit_interval:
  "0 < length (qualifying s) \<Longrightarrow>
   \<exists>x. shortLong s = Inr x \<and> is_finite x \<and> 0 \<le> valof x \<and> valof x \<le> 1"
proof -
  assume "0 < length (qualifying s)"
  then have "qualifying s \<noteq> []" by simp
  then obtain x where x: "shortLong s = Inr x" and le: "unat x \<le> 1023 * 2 ^ 52"
    using shortLong_returns by blast
  from le have "is_finite x" "0 \<le> valof x" "valof x \<le> 1"
    by (rule valof_le_one)+
  with x show ?thesis by blast
qed

theorem shortLong_unit_interval_witness:
  "0 < length (qualifying (str ''the cat sat hippopotamus'')) \<and>
   (\<exists>x. shortLong (str ''the cat sat hippopotamus'') = Inr x \<and>
        is_finite x \<and> 0 \<le> valof x \<and> valof x \<le> 1)"
proof -
  have h: "0 < length (qualifying (str ''the cat sat hippopotamus''))"
    by (simp add: shortLong_eval)
  show ?thesis
    using h shortLong_unit_interval [OF h] by (rule conjI)
qed




text \<open>
  C4, as the specification states it: the result for \<open>The cat sat\<close> differs from the
  result for \<open>the cat sat\<close>. It does not: both are the float 0.0.
\<close>

theorem case_sensitivity_same_result:
  "\<not> shortLong (str ''The cat sat'') \<noteq> shortLong (str ''the cat sat'')"
  by (simp add: shortLong_eval)

text \<open>
  C4, amended. The filter is exact-case: \<open>The\<close> stays a qualifying word of
  \<open>The cat sat\<close>, which has three qualifying words where \<open>the cat sat\<close> has two; none
  of them is longer than 8, so the result is the float 0.0 for both texts.
\<close>

theorem case_sensitivity_qualifying:
  "qualifying (str ''The cat sat'') = [str ''The'', str ''cat'', str ''sat''] \<and>
   qualifying (str ''the cat sat'') = [str ''cat'', str ''sat''] \<and>
   shortLong (str ''The cat sat'') = Inr 0 \<and>
   shortLong (str ''the cat sat'') = Inr 0 \<and>
   valof 0 = 0"
proof (intro conjI)
  show "qualifying (str ''The cat sat'') = [str ''The'', str ''cat'', str ''sat'']"
    by (simp add: shortLong_eval)
  show "qualifying (str ''the cat sat'') = [str ''cat'', str ''sat'']"
    by (simp add: shortLong_eval)
  show "shortLong (str ''The cat sat'') = Inr 0"
    by (simp add: shortLong_eval)
  show "shortLong (str ''the cat sat'') = Inr 0"
    by (simp add: shortLong_eval)
  show "valof 0 = 0"
    by (simp add: valof_def float_exp_def float_frac_def)
qed

text \<open>
  C5. The text \<open>the  cat\tsat\n\<close>, with a double space, a tab and a final newline,
  gives the same result as \<open>the cat sat\<close>; and in general the result for a text is
  the result for its words joined by single spaces.
\<close>

theorem whitespace_normalization:
  "shortLong (str (''the  cat'' @ [CHR 0x09] @ ''sat'' @ [CHR 0x0A]))
     = shortLong (str ''the cat sat'') \<and>
   shortLong (join_space (split_ws s)) = shortLong s"
proof
  show "shortLong (str (''the  cat'' @ [CHR 0x09] @ ''sat'' @ [CHR 0x0A]))
     = shortLong (str ''the cat sat'')"
    by (simp add: shortLong_eval)
  show "shortLong (join_space (split_ws s)) = shortLong s"
    using split_ws_normal by (rule shortLong_split_ws)
qed

text \<open>
  C6. The number of long words is the number of qualifying words of at least 9 code
  points. A word of 8 code points that takes 16 bytes in UTF-8 is not long, and a
  word of 9 code points, of two bytes each, is.
\<close>

theorem long_by_code_points:
  "shortLong s = true_div (length [w \<leftarrow> qualifying s. 9 \<le> length w]) (length (qualifying s)) \<and>
   (length ([233, 233, 233, 233, 233, 233, 233, 233::codepoint]) = 8 \<and> byte_length ([233, 233, 233, 233, 233, 233, 233, 233]) = 16 \<and>
    shortLong ([233, 233, 233, 233, 233, 233, 233, 233]) = Inr 0) \<and>
   (length ([233, 233, 233, 233, 233, 233, 233, 233, 233::codepoint]) = 9 \<and> byte_length ([233, 233, 233, 233, 233, 233, 233, 233, 233]) = 18 \<and>
    shortLong ([233, 233, 233, 233, 233, 233, 233, 233, 233]) = Inr 0x3FF0000000000000)"
proof (intro conjI)
  have "(\<lambda>w::pystr. 9 \<le> length w) = (\<lambda>w. 8 < length w)"
    by (rule ext) arith
  then show "shortLong s
      = true_div (length [w \<leftarrow> qualifying s. 9 \<le> length w]) (length (qualifying s))"
    by (simp add: shortLong_eq)
  show "length ([233, 233, 233, 233, 233, 233, 233, 233::codepoint]) = 8"
    by simp
  show "byte_length ([233, 233, 233, 233, 233, 233, 233, 233]) = 16"
    by (simp add: byte_length_def utf8_width_def)
  show "shortLong ([233, 233, 233, 233, 233, 233, 233, 233]) = Inr 0"
    by (simp add: shortLong_eval)
  show "length ([233, 233, 233, 233, 233, 233, 233, 233, 233::codepoint]) = 9"
    by simp
  show "byte_length ([233, 233, 233, 233, 233, 233, 233, 233, 233]) = 18"
    by (simp add: byte_length_def utf8_width_def)
  show "shortLong ([233, 233, 233, 233, 233, 233, 233, 233, 233]) = Inr 0x3FF0000000000000"
    by (simp add: shortLong_eval)
qed

text \<open>
  C7. \<open>hippopotamus\<close> is its own single qualifying word, of length 12, and the result
  is the float 1.0.
\<close>

theorem hippopotamus_one:
  "shortLong (str ''hippopotamus'') = Inr 0x3FF0000000000000 \<and>
   valof 0x3FF0000000000000 = 1 \<and>
   qualifying (str ''hippopotamus'') = [str ''hippopotamus''] \<and>
   length (str ''hippopotamus'') = 12"
proof (intro conjI)
  show "shortLong (str ''hippopotamus'') = Inr 0x3FF0000000000000"
    by (simp add: shortLong_eval)
  show "valof 0x3FF0000000000000 = 1"
    by (simp add: valof_def float_exp_def float_frac_def float_sign_def)
  show "qualifying (str ''hippopotamus'') = [str ''hippopotamus'']"
    by (simp add: shortLong_eval)
  show "length (str ''hippopotamus'') = 12"
    by (simp add: str_def)
qed



text \<open>
  C10. Whitespace put before and after a text changes nothing: the padded text gives
  the same float, or the same error, as the text itself.
\<close>

theorem whitespace_padding:
  "list_all isspace w1 \<Longrightarrow> list_all isspace w2 \<Longrightarrow> shortLong (w1 @ s @ w2) = shortLong s"
proof -
  assume w1: "list_all isspace w1" and w2: "list_all isspace w2"
  have "split_ws (w1 @ s @ w2) = split_ws (s @ w2)"
    using w1 by (rule split_ws_lead)
  also have "\<dots> = split_ws s"
    using w2 by (rule split_ws_trail)
  finally show ?thesis
    by (rule shortLong_split_ws)
qed

theorem whitespace_padding_witness:
  "list_all isspace [32, 9] \<and> list_all isspace [10] \<and>
   shortLong ([32, 9] @ str ''a hippopotamus'' @ [10]) = shortLong (str ''a hippopotamus'')"
proof -
  have h1: "list_all isspace [32, 9]" by (simp add: isspace_def)
  have h2: "list_all isspace [10]" by (simp add: isspace_def)
  from whitespace_padding [OF h1 h2, of "str ''a hippopotamus''"] h1 h2
  show ?thesis by blast
qed

end
